theory Spec2Isabelle
  imports Main "HOL-Library.Char_ord" "HOL-Library.List_Lexorder"
begin

section \<open>Python values, errors and string helpers\<close>

text \<open>
  The values the code passes around: \<open>None\<close>, booleans, integers, strings, lists and
  dictionaries with string keys (the result of \<open>json.loads\<close>, the statement pairs
  \<open>[sql, params]\<close>). A dictionary keeps its insertion order, as in Python.
\<close>

datatype pyval =
    PNone
  | PBool bool
  | PInt int
  | PStr string
  | PList "pyval list"
  | PDict "(string \<times> pyval) list"

text \<open>The exceptions that the modelled code raises or lets through.\<close>

datatype error =
    LookupError
  | CircularDependencyError
  | AssertionError
  | ProgrammingError
  | TypeError
  | IndexError

text \<open>\<open>str.lower()\<close> on ASCII text.\<close>

definition lower_char :: "char \<Rightarrow> char" where
  "lower_char c =
     (let n = (of_char c :: nat) in if 65 \<le> n \<and> n \<le> 90 then char_of (n + 32) else c)"

definition lower :: "string \<Rightarrow> string" where
  "lower s = map lower_char s"

text \<open>\<open>s.split(sep)\<close> for a one-character separator: never empty, \<open>''.split(',') == ['']\<close>.\<close>

fun py_split :: "char \<Rightarrow> string \<Rightarrow> string list" where
  "py_split sep [] = [[]]"
| "py_split sep (c # cs) =
     (if c = sep then [] # py_split sep cs
      else (case py_split sep cs of
              [] \<Rightarrow> [[c]]
            | w # ws \<Rightarrow> (c # w) # ws))"

text \<open>\<open>sep.join(parts)\<close>.\<close>

fun py_join :: "string \<Rightarrow> string list \<Rightarrow> string" where
  "py_join sep [] = []"
| "py_join sep [w] = w"
| "py_join sep (w # v # ws) = w @ sep @ py_join sep (v # ws)"

text \<open>\<open>'{}'.format(v)\<close> for the result of a \<open>sql\<close> classmethod: a string or \<open>None\<close>.\<close>

definition py_format :: "string option \<Rightarrow> string" where
  "py_format v = (case v of None \<Rightarrow> ''None'' | Some s \<Rightarrow> s)"

text \<open>\<open>d[k] = v\<close> on a dictionary: an existing key keeps its place.\<close>

fun dict_set :: "string \<Rightarrow> pyval \<Rightarrow> (string \<times> pyval) list \<Rightarrow> (string \<times> pyval) list" where
  "dict_set k v [] = [(k, v)]"
| "dict_set k v ((k', v') # kvs) =
     (if k' = k then (k, v) # kvs else (k', v') # dict_set k v kvs)"

text \<open>\<open>obj[k] = v\<close> on any value: only a dictionary accepts a string key.\<close>

definition py_setitem :: "pyval \<Rightarrow> string \<Rightarrow> pyval \<Rightarrow> error + pyval" where
  "py_setitem obj k v =
     (case obj of PDict kvs \<Rightarrow> Inr (PDict (dict_set k v kvs)) | _ \<Rightarrow> Inl TypeError)"

text \<open>\<open>xs.index(x)\<close> where \<open>x\<close> occurs; the length of \<open>xs\<close> otherwise.\<close>

fun index_of :: "'a list \<Rightarrow> 'a \<Rightarrow> nat" where
  "index_of [] x = 0"
| "index_of (y # ys) x = (if y = x then 0 else Suc (index_of ys x))"

section \<open>The environment: Django and the json module\<close>

text \<open>
  The library functions the code imports and that are not part of the repository are
  parameters of the model: Django's \<open>truncate_name\<close> with the connection's
  \<open>max_name_length()\<close>, and \<open>json.loads\<close> (\<open>None\<close> stands for \<open>JSONDecodeError\<close>) and
  \<open>json.dumps\<close>.
\<close>

record env =
  truncate_name :: "string \<Rightarrow> nat \<Rightarrow> string"
  max_name_length :: nat
  json_loads :: "string \<Rightarrow> pyval option"
  json_dumps :: "pyval \<Rightarrow> string"

section \<open>The database\<close>

text \<open>
  The connection as the code uses it: the statements passed to \<open>cursor.execute\<close> in
  order, the comment attached to each object (\<open>pg_description\<close>), the text of
  \<open>now()\<close>, and the statements the engine rejects with \<open>ProgrammingError\<close>.
\<close>

record db =
  executed :: "(string \<times> pyval) list"
  comments :: "string \<Rightarrow> string option"
  now :: string
  rejects :: "string \<Rightarrow> bool"

definition execute :: "string \<Rightarrow> pyval \<Rightarrow> db \<Rightarrow> error + db" where
  "execute sql ps d =
     (if rejects d sql then Inl ProgrammingError
      else Inr (d\<lparr>executed := executed d @ [(sql, ps)]\<rparr>))"

section \<open>Model classes\<close>

text \<open>
  A Django model class. \<open>base\<close> is the class of this repository it derives from, if
  any; \<open>sql_override\<close> is the text returned by the \<open>sql\<close> classmethod the concrete class
  defines itself (\<open>None\<close> when it never overrides it); \<open>dependencies\<close>, \<open>params\<close>,
  \<open>concurrently\<close> are the class attributes as \<open>getattr\<close> finds them; \<open>update_mv\<close> is the
  policy hook of a materialized view.
\<close>

datatype base_class = DjangoModel | ViewedModel | MaterializedViewedModel

record model_class =
  app_label :: string
  model_name :: string
  db_table :: string
  abstract :: bool
  base :: base_class
  sql_override :: "string option"
  dependencies :: "(string \<times> string) list"
  params :: pyval
  concurrently :: bool
  update_mv :: "db \<Rightarrow> bool"

text \<open>
  Attribute lookup through the class hierarchy. \<open>ViewedModel\<close> deletes its
  demonstration \<open>sql\<close> (\<open>del(sql)\<close>), so a plain view has the attribute only when it
  defines it; \<open>MaterializedViewedModel\<close> defines \<open>sql\<close> with body \<open>pass\<close>, which returns
  \<open>None\<close>, and sets \<open>materialized = True\<close>. \<open>sql_attr\<close> is \<open>None\<close> when the
  class has no \<open>sql\<close> attribute, and otherwise holds what calling it returns.
\<close>

definition sql_attr :: "model_class \<Rightarrow> string option option" where
  "sql_attr m =
     (case sql_override m of
        Some body \<Rightarrow> Some (Some body)
      | None \<Rightarrow> (case base m of
                   MaterializedViewedModel \<Rightarrow> Some None
                 | _ \<Rightarrow> None))"

definition hasattr_sql :: "model_class \<Rightarrow> bool" where
  "hasattr_sql m = (sql_attr m \<noteq> None)"

definition materialized :: "model_class \<Rightarrow> bool" where
  "materialized m = (base m = MaterializedViewedModel)"

section \<open>helpers.py\<close>

definition table_name :: "model_class \<Rightarrow> string" where
  "table_name m = db_table m"

text \<open>
  \<open>get_model\<close>: the app registry holds the concrete (non-abstract) models, keyed by app
  label and model name; both lookups raise \<open>LookupError\<close>.
\<close>

definition get_model :: "model_class list \<Rightarrow> string \<Rightarrow> string \<Rightarrow> error + model_class" where
  "get_model reg app_name mname =
     (case find (\<lambda>m. \<not> abstract m \<and> app_label m = lower app_name) reg of
        None \<Rightarrow> Inl LookupError
      | Some _ \<Rightarrow>
         (case find (\<lambda>m. \<not> abstract m \<and> app_label m = lower app_name
                          \<and> model_name m = lower mname) reg of
            None \<Rightarrow> Inl LookupError
          | Some m \<Rightarrow> Inr m))"

definition default_table_name :: "env \<Rightarrow> string \<Rightarrow> string \<Rightarrow> string" where
  "default_table_name e app_name mname =
     lower (truncate_name e (app_name @ ''_'' @ mname) (max_name_length e))"

definition model_default_table_name :: "env \<Rightarrow> model_class \<Rightarrow> string" where
  "model_default_table_name e m = default_table_name e (app_label m) (model_name m)"

text \<open>\<open>get_subclasses(ViewedModel)\<close>: every class deriving from \<open>ViewedModel\<close>.\<close>

definition get_subclasses :: "model_class list \<Rightarrow> model_class list" where
  "get_subclasses reg = filter (\<lambda>m. base m \<noteq> DjangoModel) reg"

section \<open>The topological scheduler\<close>

text \<open>
  The dependency dictionary \<open>defaultdict(set)\<close>: identifier to the identifiers it depends
  on, keys in insertion order, each value without duplicates.
\<close>

type_synonym graph = "(string \<times> string list) list"

fun add_dep :: "string \<Rightarrow> string \<Rightarrow> graph \<Rightarrow> graph" where
  "add_dep k v [] = [(k, [v])]"
| "add_dep k v ((k', vs) # g) =
     (if k' = k then (k', if v \<in> set vs then vs else vs @ [v]) # g
      else (k', vs) # add_dep k v g)"

definition edges :: "graph \<Rightarrow> (string \<times> string) set" where
  "edges g = {(k, d). \<exists>ds. (k, ds) \<in> set g \<and> d \<in> set ds}"

definition ready :: "graph \<Rightarrow> string list" where
  "ready data = map fst (filter (\<lambda>(k, dep). dep = []) data)"

definition remove_ready :: "string list \<Rightarrow> graph \<Rightarrow> graph" where
  "remove_ready ordered data =
     map (\<lambda>(k, dep). (k, filter (\<lambda>d. d \<notin> set ordered) dep))
       (filter (\<lambda>(k, dep). k \<notin> set ordered) data)"

text \<open>
  Modelled from the spec: \<open>toposort_flatten\<close> is imported from the \<open>toposort\<close> package,
  which is not under src/. The spec's scheduler ("flatten") produces one order with
  every dependency before its dependents and fails with a cycle error, returning no
  partial order, when the graph has a cycle. The model is the package's layered
  scheme: identifiers that occur only as dependencies get an empty dependency set; each
  round emits, sorted, the identifiers with no dependency left and removes them; when
  none is ready and identifiers remain, the call raises.
\<close>

function toposort_loop :: "graph \<Rightarrow> error + string list" where
  "toposort_loop data =
     (if ready data = [] then (if data = [] then Inr [] else Inl CircularDependencyError)
      else (case toposort_loop (remove_ready (ready data) data) of
              Inl e \<Rightarrow> Inl e
            | Inr rest \<Rightarrow> Inr (sort (remdups (ready data)) @ rest)))"
  by pat_completeness auto
termination
proof (relation "measure length")
  show "wf (measure length)" by simp
next
  fix data :: graph
  assume "ready data \<noteq> []"
  then obtain k where k: "k \<in> set (ready data)" by (cases "ready data") auto
  then obtain dep where "(k, dep) \<in> set data" by (auto simp: ready_def)
  moreover from k have "\<not> (\<lambda>(k, dep). k \<notin> set (ready data)) (k, dep)" by simp
  ultimately have "length (filter (\<lambda>(k, dep). k \<notin> set (ready data)) data) < length data"
    by (rule length_filter_less)
  then show "(remove_ready (ready data) data, data) \<in> measure length"
    by (simp add: remove_ready_def)
qed

declare toposort_loop.simps [simp del]

definition extra_items_in_deps :: "graph \<Rightarrow> string list" where
  "extra_items_in_deps g =
     remdups (filter (\<lambda>d. d \<notin> set (map fst g)) (concat (map snd g)))"

definition toposort_flatten :: "graph \<Rightarrow> error + string list" where
  "toposort_flatten g =
     (if g = [] then Inr []
      else toposort_loop (g @ map (\<lambda>item. (item, [])) (extra_items_in_deps g)))"

section \<open>ViewDefinition.sort_dependencies\<close>

text \<open>The inner loop over \<open>getattr(c, 'dependencies', [])\<close>.\<close>

fun add_dependencies ::
  "env \<Rightarrow> model_class list \<Rightarrow> string \<Rightarrow> (string \<times> string) list \<Rightarrow> graph \<Rightarrow> error + graph" where
  "add_dependencies e reg class_string [] g = Inr g"
| "add_dependencies e reg class_string (dependency # rest) g =
     (case get_model reg (fst dependency) (snd dependency) of
        Inl _ \<Rightarrow> Inl LookupError
      | Inr m \<Rightarrow>
          add_dependencies e reg class_string rest
            (add_dep class_string (model_default_table_name e m) g))"

definition parse_scope :: "string \<Rightarrow> string list option" where
  "parse_scope apps = (if apps \<noteq> ''all'' then Some (py_split CHR '','' apps) else None)"

text \<open>The scope test of the first loop: \<open>apps != 'all' and c._meta.app_label not in apps\<close>.\<close>

definition out_of_scope :: "string list option \<Rightarrow> model_class \<Rightarrow> bool" where
  "out_of_scope scope c = (case scope of None \<Rightarrow> False | Some apps \<Rightarrow> app_label c \<notin> set apps)"

text \<open>
  The outer loop over the subclasses: a class outside the scope or abstract is skipped.
  The scope is \<open>None\<close> for \<open>'all'\<close>.
\<close>

fun build_dependencies ::
  "env \<Rightarrow> model_class list \<Rightarrow> string list option \<Rightarrow> model_class list \<Rightarrow> graph \<Rightarrow> error + graph" where
  "build_dependencies e reg scope [] g = Inr g"
| "build_dependencies e reg scope (c # cs) g =
     (if out_of_scope scope c then build_dependencies e reg scope cs g
      else if abstract c then build_dependencies e reg scope cs g
      else (case add_dependencies e reg (model_default_table_name e c) (dependencies c) g of
              Inl err \<Rightarrow> Inl err
            | Inr g' \<Rightarrow> build_dependencies e reg scope cs g'))"

definition dependency_graph :: "env \<Rightarrow> model_class list \<Rightarrow> string \<Rightarrow> error + graph" where
  "dependency_graph e reg apps =
     build_dependencies e reg (parse_scope apps) (get_subclasses reg) []"

text \<open>
  The body of the second loop, for one flattened identifier: nothing is appended when
  the identifier is skipped or the model found has no \<open>sql\<close>; \<open>get_model\<close> may raise.
\<close>

definition collect_step :: "model_class list \<Rightarrow> string \<Rightarrow> error + model_class list" where
  "collect_step reg name =
     (let splitname = py_split CHR ''_'' name;
          model = last splitname;
          app = py_join ''_'' (butlast splitname)
      in if app = ''None'' \<or> model = ''viewedmodel'' then Inr []
         else (case get_model reg app model of
                 Inl err \<Rightarrow> Inl err
               | Inr model_object \<Rightarrow>
                   Inr (if hasattr_sql model_object then [model_object] else [])))"

text \<open>The second loop: from the flattened identifiers back to model classes.\<close>

fun collect_models :: "model_class list \<Rightarrow> string list \<Rightarrow> error + model_class list" where
  "collect_models reg [] = Inr []"
| "collect_models reg (name # names) =
     (case collect_step reg name of
        Inl err \<Rightarrow> Inl err
      | Inr found \<Rightarrow>
          (case collect_models reg names of
             Inl err \<Rightarrow> Inl err
           | Inr model_objects \<Rightarrow> Inr (found @ model_objects)))"

text \<open>What the returned list holds for one flattened identifier.\<close>

definition scheduled :: "model_class list \<Rightarrow> string \<Rightarrow> model_class list" where
  "scheduled reg name = (case collect_step reg name of Inl _ \<Rightarrow> [] | Inr found \<Rightarrow> found)"

text \<open>The local variable \<open>flattened\<close>.\<close>

definition flattened_identifiers :: "env \<Rightarrow> model_class list \<Rightarrow> string \<Rightarrow> error + string list" where
  "flattened_identifiers e reg apps =
     (case dependency_graph e reg apps of
        Inl err \<Rightarrow> Inl err
      | Inr deps \<Rightarrow> toposort_flatten deps)"

definition sort_dependencies :: "env \<Rightarrow> model_class list \<Rightarrow> string \<Rightarrow> error + model_class list" where
  "sort_dependencies e reg apps =
     (case flattened_identifiers e reg apps of
        Inl err \<Rightarrow> Inl err
      | Inr flattened \<Rightarrow> collect_models reg flattened)"

section \<open>Rendering and executing statements\<close>

text \<open>The keyword arguments the rendering methods read with \<open>kwargs.get\<close>.\<close>

record kwargs =
  kw_dryrun :: "bool option"
  kw_drop_cascade :: "bool option"

definition get_dryrun :: "kwargs \<Rightarrow> bool" where
  "get_dryrun kw = (case kw_dryrun kw of None \<Rightarrow> False | Some b \<Rightarrow> b)"

definition get_drop_cascade :: "kwargs \<Rightarrow> bool" where
  "get_drop_cascade kw = (case kw_drop_cascade kw of None \<Rightarrow> True | Some b \<Rightarrow> b)"

definition view_type :: "model_class \<Rightarrow> string" where
  "view_type m = (if materialized m then ''MATERIALIZED VIEW'' else ''VIEW'')"

definition time_from_db :: "db \<Rightarrow> error + (string \<times> db)" where
  "time_from_db d =
     (case execute ''SELECT now()::text'' PNone d of
        Inl err \<Rightarrow> Inl err
      | Inr d' \<Rightarrow> Inr (now d', d'))"

definition drop_text :: "model_class \<Rightarrow> kwargs \<Rightarrow> string" where
  "drop_text m kw =
     ''DROP '' @ view_type m @ '' IF EXISTS '' @ [CHR 0x22] @ table_name m @ [CHR 0x22]
       @ '' '' @ (if get_drop_cascade kw then ''CASCADE'' else []) @ '';''"

definition sql_drop :: "model_class \<Rightarrow> kwargs \<Rightarrow> db \<Rightarrow> error + (pyval list \<times> db)" where
  "sql_drop m kw d =
     (let sql = drop_text m kw in
      if \<not> get_dryrun kw then
        (case execute sql PNone d of
           Inl err \<Rightarrow> Inl err
         | Inr d' \<Rightarrow> Inr ([PStr sql, PNone], d'))
      else Inr ([PStr sql, PNone], d))"

definition create_text :: "model_class \<Rightarrow> string option \<Rightarrow> string" where
  "create_text m body =
     ''CREATE '' @ view_type m @ '' '' @ [CHR 0x22] @ table_name m @ [CHR 0x22]
       @ '' AS ('' @ py_format body @ '')''"

definition sql_create :: "model_class \<Rightarrow> kwargs \<Rightarrow> db \<Rightarrow> error + (pyval list \<times> db)" where
  "sql_create m kw d =
     (case sql_attr m of
        None \<Rightarrow> Inl AssertionError
      | Some body \<Rightarrow>
          (let sql = create_text m body in
           if \<not> get_dryrun kw then
             (case execute sql (params m) d of
                Inl err \<Rightarrow> Inl err
              | Inr d' \<Rightarrow> Inr ([PStr sql, params m], d'))
           else Inr ([PStr sql, params m], d)))"

section \<open>The metadata comment of a materialized view\<close>

definition get_comment_text :: "model_class \<Rightarrow> string" where
  "get_comment_text m =
     [CHR 0x0A] @ ''            SELECT description'' @ [CHR 0x0A]
     @ ''            FROM   pg_description'' @ [CHR 0x0A]
     @ ''            WHERE  objoid = '' @ [CHR 0x27] @ table_name m @ [CHR 0x27]
     @ ''::regclass;'' @ [CHR 0x0A] @ ''            ''"

text \<open>
  \<open>get_comment\<close>: the description of the object, as the text the engine holds, or
  \<open>None\<close> when \<open>fetchone()\<close> finds no row.
\<close>

definition get_comment :: "model_class \<Rightarrow> db \<Rightarrow> error + (string option \<times> db)" where
  "get_comment m d =
     (case execute (get_comment_text m) PNone d of
        Inl err \<Rightarrow> Inl err
      | Inr d' \<Rightarrow> Inr (comments d' (table_name m), d'))"

definition set_comment_text :: "model_class \<Rightarrow> string \<Rightarrow> string" where
  "set_comment_text m comment =
     ''COMMENT ON MATERIALIZED VIEW '' @ table_name m @ '' IS '' @ [CHR 0x27] @ comment
       @ [CHR 0x27]"

text \<open>
  The comment text stands unescaped between the single quotes of the statement, so the
  engine reads it as the body of a string literal: two single quotes in a row stand
  for one, and a single quote alone ends the literal, which leaves the rest of the text
  outside it and the statement malformed (\<open>None\<close>).
\<close>

fun sql_literal :: "string \<Rightarrow> string option" where
  "sql_literal [] = Some []"
| "sql_literal (c # cs) =
     (if c = CHR 0x27 then
        (case cs of
           [] \<Rightarrow> None
         | c' # cs' \<Rightarrow>
             (if c' = CHR 0x27 then map_option ((#) c) (sql_literal cs') else None))
      else map_option ((#) c) (sql_literal cs))"

text \<open>
  \<open>_set_comment\<close>: the engine raises \<open>ProgrammingError\<close> on a malformed statement;
  otherwise it attaches the text of the literal to the object.
\<close>

definition set_comment_raw :: "model_class \<Rightarrow> string \<Rightarrow> db \<Rightarrow> error + db" where
  "set_comment_raw m comment d =
     (case sql_literal comment of
        None \<Rightarrow> Inl ProgrammingError
      | Some held \<Rightarrow>
          (case execute (set_comment_text m comment) PNone d of
             Inl err \<Rightarrow> Inl err
           | Inr d' \<Rightarrow> Inr (d'\<lparr>comments := (comments d')(table_name m \<mapsto> held)\<rparr>)))"

text \<open>\<open>cls.get_comment() or '{}'\<close>: \<open>None\<close> and the empty string are both falsy.\<close>

definition comment_or_default :: "string option \<Rightarrow> string" where
  "comment_or_default c =
     (case c of None \<Rightarrow> ''{}'' | Some s \<Rightarrow> (if s = [] then ''{}'' else s))"

text \<open>The \<open>try: json.loads ... except JSONDecodeError\<close> of \<open>set_comment\<close>.\<close>

definition parse_comment :: "env \<Rightarrow> string \<Rightarrow> pyval" where
  "parse_comment e comment =
     (case json_loads e comment of
        Some v \<Rightarrow> v
      | None \<Rightarrow> PDict [(''old_content'', PStr comment)])"

definition set_comment :: "env \<Rightarrow> model_class \<Rightarrow> db \<Rightarrow> error + db" where
  "set_comment e m d =
     (case get_comment m d of
        Inl err \<Rightarrow> Inl err
      | Inr (c, d1) \<Rightarrow>
          (let comment = parse_comment e (comment_or_default c) in
           case time_from_db d1 of
             Inl err \<Rightarrow> Inl err
           | Inr (t, d2) \<Rightarrow>
               (case py_setitem comment ''last_updated'' (PStr t) of
                  Inl err \<Rightarrow> Inl err
                | Inr comment' \<Rightarrow> set_comment_raw m (json_dumps e comment') d2)))"

section \<open>Refresh and vacuum\<close>

definition refresh_text :: "model_class \<Rightarrow> string" where
  "refresh_text m =
     ''REFRESH MATERIALIZED VIEW '' @ (if concurrently m then ''CONCURRENTLY'' else [])
       @ '' '' @ table_name m"

text \<open>
  \<open>sql_refresh\<close>: the result is the Python value returned, \<open>None\<close> or the list
  \<open>[sql, None]\<close>. The \<open>return [sql, None]\<close> stands inside the \<open>if not dryrun\<close> block.
\<close>

definition sql_refresh :: "env \<Rightarrow> model_class \<Rightarrow> kwargs \<Rightarrow> db \<Rightarrow> error + (pyval \<times> db)" where
  "sql_refresh e m kw d =
     (if \<not> update_mv m d then Inr (PNone, d)
      else
        (let sql = refresh_text m in
         if \<not> get_dryrun kw then
           (case execute sql PNone d of
              Inl err \<Rightarrow> Inl err
            | Inr d1 \<Rightarrow>
                (case set_comment e m d1 of
                   Inl err \<Rightarrow> Inl err
                 | Inr d2 \<Rightarrow> Inr (PList [PStr sql, PNone], d2)))
         else Inr (PNone, d)))"

definition vacuum_text :: "model_class \<Rightarrow> string" where
  "vacuum_text m = ''VACUUM ANALYZE '' @ table_name m"

definition sql_vacuum :: "model_class \<Rightarrow> kwargs \<Rightarrow> db \<Rightarrow> error + (pyval \<times> db)" where
  "sql_vacuum m kw d =
     (let sql = vacuum_text m in
      if \<not> get_dryrun kw then
        (case execute sql PNone d of
           Inl err \<Rightarrow> Inl err
         | Inr d1 \<Rightarrow> Inr (PList [PStr sql, PNone], d1))
      else Inr (PNone, d))"

section \<open>ViewDefinition: the plans\<close>

text \<open>A list comprehension \<open>[f(model) for model in models]\<close> over the connection.\<close>

fun for_each ::
  "('a \<Rightarrow> db \<Rightarrow> error + ('b \<times> db)) \<Rightarrow> 'a list \<Rightarrow> db \<Rightarrow> error + ('b list \<times> db)" where
  "for_each f [] d = Inr ([], d)"
| "for_each f (x # xs) d =
     (case f x d of
        Inl err \<Rightarrow> Inl err
      | Inr (y, d1) \<Rightarrow>
          (case for_each f xs d1 of
             Inl err \<Rightarrow> Inl err
           | Inr (ys, d2) \<Rightarrow> Inr (y # ys, d2)))"

text \<open>The list \<open>ordered_models\<close> each plan iterates over.\<close>

definition drop_all_order :: "env \<Rightarrow> model_class list \<Rightarrow> string \<Rightarrow> error + model_class list" where
  "drop_all_order e reg apps =
     (case sort_dependencies e reg apps of
        Inl err \<Rightarrow> Inl err
      | Inr ordered_models \<Rightarrow> Inr (rev ordered_models))"

definition create_all_order :: "env \<Rightarrow> model_class list \<Rightarrow> string \<Rightarrow> error + model_class list" where
  "create_all_order e reg apps = sort_dependencies e reg apps"

definition drop_kwargs :: "bool \<Rightarrow> kwargs" where
  "drop_kwargs dryrun = \<lparr>kw_dryrun = Some dryrun, kw_drop_cascade = Some False\<rparr>"

definition drop_all_statements ::
  "env \<Rightarrow> model_class list \<Rightarrow> bool \<Rightarrow> string \<Rightarrow> db \<Rightarrow> error + (pyval list list \<times> db)" where
  "drop_all_statements e reg dryrun apps d =
     (case drop_all_order e reg apps of
        Inl err \<Rightarrow> Inl err
      | Inr ordered_models \<Rightarrow>
          for_each (\<lambda>model. sql_drop model (drop_kwargs dryrun)) ordered_models d)"

definition create_all_statements ::
  "env \<Rightarrow> model_class list \<Rightarrow> bool \<Rightarrow> string \<Rightarrow> db \<Rightarrow> error + (pyval list list \<times> db)" where
  "create_all_statements e reg dryrun apps d =
     (case create_all_order e reg apps of
        Inl err \<Rightarrow> Inl err
      | Inr ordered_models \<Rightarrow>
          for_each (\<lambda>model. sql_create model (drop_kwargs dryrun)) ordered_models d)"

text \<open>The list \<open>statements\<close> of \<open>recreate\<close>: both plans with their default \<open>dryrun=True\<close>.\<close>

definition recreate_statements ::
  "env \<Rightarrow> model_class list \<Rightarrow> string \<Rightarrow> db \<Rightarrow> error + (pyval list list \<times> db)" where
  "recreate_statements e reg apps d =
     (case drop_all_statements e reg True apps d of
        Inl err \<Rightarrow> Inl err
      | Inr (statements, d1) \<Rightarrow>
          (case create_all_statements e reg True apps d1 of
             Inl err \<Rightarrow> Inl err
           | Inr (created, d2) \<Rightarrow> Inr (statements @ created, d2)))"

text \<open>The guard \<open>len(s) == 0\<close> of the loop in \<open>recreate\<close>.\<close>

definition pads_entry :: "pyval list \<Rightarrow> bool" where
  "pads_entry s = (length s = 0)"

text \<open>
  The loop of \<open>recreate\<close>. \<open>s += None\<close> raises \<open>TypeError\<close>; \<open>s[0]\<close> and \<open>s[1]\<close> raise
  \<open>IndexError\<close> out of range; the cursor takes a string.
\<close>

fun recreate_loop :: "pyval list list \<Rightarrow> db \<Rightarrow> error + db" where
  "recreate_loop [] d = Inr d"
| "recreate_loop (s # ss) d =
     (if pads_entry s then Inl TypeError
      else if length s < 2 then Inl IndexError
      else (case s ! 0 of
              PStr q \<Rightarrow>
                (case execute q (s ! 1) d of
                   Inl err \<Rightarrow> Inl err
                 | Inr d' \<Rightarrow> recreate_loop ss d')
            | _ \<Rightarrow> Inl TypeError))"

definition recreate :: "env \<Rightarrow> model_class list \<Rightarrow> string \<Rightarrow> db \<Rightarrow> error + db" where
  "recreate e reg apps d =
     (case recreate_statements e reg apps d of
        Inl err \<Rightarrow> Inl err
      | Inr (statements, d1) \<Rightarrow> recreate_loop statements d1)"

definition mat_models :: "model_class list \<Rightarrow> model_class list" where
  "mat_models ordered_models = filter materialized ordered_models"

definition refresh_mv ::
  "env \<Rightarrow> model_class list \<Rightarrow> string \<Rightarrow> kwargs \<Rightarrow> db \<Rightarrow> error + (pyval list \<times> db)" where
  "refresh_mv e reg apps kw d =
     (case sort_dependencies e reg apps of
        Inl err \<Rightarrow> Inl err
      | Inr ordered_models \<Rightarrow>
          for_each (\<lambda>model. sql_refresh e model kw) (mat_models ordered_models) d)"

definition vacuum_mv ::
  "env \<Rightarrow> model_class list \<Rightarrow> string \<Rightarrow> kwargs \<Rightarrow> db \<Rightarrow> error + (pyval list \<times> db)" where
  "vacuum_mv e reg apps kw d =
     (case sort_dependencies e reg apps of
        Inl err \<Rightarrow> Inl err
      | Inr ordered_models \<Rightarrow>
          for_each (\<lambda>model. sql_vacuum model kw) (mat_models ordered_models) d)"

section \<open>Notions used to state the properties\<close>

text \<open>
  A graph is closed when every dependency is itself a key; \<open>completed\<close> is the dictionary
  after the scheduler has added the identifiers that occur only as dependencies.
\<close>

definition closed :: "graph \<Rightarrow> bool" where
  "closed g = (\<forall>(k, ds) \<in> set g. set ds \<subseteq> fst ` set g)"

definition completed :: "graph \<Rightarrow> graph" where
  "completed g = g @ map (\<lambda>item. (item, [])) (extra_items_in_deps g)"

text \<open>
  The pairs (definition identifier, dependency identifier) that the concrete
  definitions in scope declare: for each class the first loop does not skip, each of
  its \<open>dependencies\<close> that \<open>get_model\<close> resolves.
\<close>

fun dependency_names :: "env \<Rightarrow> model_class list \<Rightarrow> (string \<times> string) list \<Rightarrow> string list" where
  "dependency_names e reg [] = []"
| "dependency_names e reg (dep # deps) =
     (case get_model reg (fst dep) (snd dep) of
        Inl _ \<Rightarrow> dependency_names e reg deps
      | Inr m \<Rightarrow> model_default_table_name e m # dependency_names e reg deps)"

fun declared_in ::
  "env \<Rightarrow> model_class list \<Rightarrow> string list option \<Rightarrow> model_class list \<Rightarrow> (string \<times> string) list" where
  "declared_in e reg scope [] = []"
| "declared_in e reg scope (c # cs) =
     (if out_of_scope scope c \<or> abstract c then declared_in e reg scope cs
      else map (Pair (model_default_table_name e c)) (dependency_names e reg (dependencies c))
           @ declared_in e reg scope cs)"

definition declared_dependencies ::
  "env \<Rightarrow> model_class list \<Rightarrow> string \<Rightarrow> (string \<times> string) list" where
  "declared_dependencies e reg apps = declared_in e reg (parse_scope apps) (get_subclasses reg)"

text \<open>A statement as the cursor takes it: the list of a string and its parameters.\<close>

definition pair_shaped :: "pyval list \<Rightarrow> bool" where
  "pair_shaped s = (\<exists>q p. s = [PStr q, p])"

section \<open>Concrete inputs\<close>

text \<open>
  An environment for the examples: names shorter than the limit are not truncated;
  \<open>json.dumps\<close> on the flat objects of strings the examples use, and \<open>json.loads\<close> as a
  table of the texts the examples read (any other text is not JSON).
\<close>

definition example_dumps :: "pyval \<Rightarrow> string" where
  "example_dumps v =
     (case v of
        PDict kvs \<Rightarrow>
          ''{'' @ py_join '', ''
                    (map (\<lambda>(k, x). [CHR 0x22] @ k @ [CHR 0x22] @ '': '' @
                            (case x of PStr s \<Rightarrow> [CHR 0x22] @ s @ [CHR 0x22] | _ \<Rightarrow> ''null'')) kvs)
              @ ''}''
      | _ \<Rightarrow> ''null'')"

definition obrien_json :: string where
  "obrien_json = ''{'' @ [CHR 0x22] @ ''owner'' @ [CHR 0x22] @ '': '' @ [CHR 0x22] @ ''o''
                    @ [CHR 0x27] @ ''brien'' @ [CHR 0x22] @ ''}''"

definition example_loads :: "string \<Rightarrow> pyval option" where
  "example_loads s =
     (if s = ''{}'' then Some (PDict [])
      else if s = ''{'' @ [CHR 0x22] @ ''owner'' @ [CHR 0x22] @ '': '' @ [CHR 0x22] @ ''ops''
                    @ [CHR 0x22] @ ''}''
      then Some (PDict [(''owner'', PStr ''ops'')])
      else if s = obrien_json
      then Some (PDict [(''owner'', PStr (''o'' @ [CHR 0x27] @ ''brien''))])
      else None)"

definition example_env :: env where
  "example_env =
     \<lparr>truncate_name = (\<lambda>s n. if length s \<le> n then s else take n s),
      max_name_length = 63,
      json_loads = example_loads,
      json_dumps = example_dumps\<rparr>"

definition example_db :: db where
  "example_db =
     \<lparr>executed = [], comments = (\<lambda>t. None), now = ''2020-01-01 00:00:00+00'',
      rejects = (\<lambda>q. False)\<rparr>"

definition view :: "string \<Rightarrow> string \<Rightarrow> (string \<times> string) list \<Rightarrow> model_class" where
  "view app name deps =
     \<lparr>app_label = app, model_name = name, db_table = app @ ''_'' @ name, abstract = False,
      base = ViewedModel, sql_override = Some ''SELECT 1'', dependencies = deps,
      params = PNone, concurrently = False, update_mv = (\<lambda>d. True)\<rparr>"

text \<open>A (no dependencies), B (depends on A), C (depends on B).\<close>

definition chain_registry :: "model_class list" where
  "chain_registry =
     [view ''ns'' ''c'' [(''ns'', ''B'')], view ''ns'' ''b'' [(''ns'', ''A'')], view ''ns'' ''a'' []]"

definition chain_graph :: graph where
  "chain_graph = [(''ns_c'', [''ns_b'']), (''ns_b'', [''ns_a''])]"

text \<open>X depends on Y and Y depends on X.\<close>

definition cycle_registry :: "model_class list" where
  "cycle_registry = [view ''ns'' ''x'' [(''ns'', ''Y'')], view ''ns'' ''y'' [(''ns'', ''X'')]]"

definition cycle_graph :: graph where
  "cycle_graph = [(''ns_x'', [''ns_y'']), (''ns_y'', [''ns_x''])]"

text \<open>A view of \<open>ns1\<close> that depends on a view of \<open>ns2\<close>.\<close>

definition scope_registry :: "model_class list" where
  "scope_registry = [view ''ns1'' ''b'' [(''ns2'', ''A'')], view ''ns2'' ''a'' []]"

text \<open>
  Four views: \<open>ns1.t\<close> without dependencies, \<open>ns1.c\<close> on \<open>ns1.t\<close>, \<open>ns2.a\<close> on \<open>ns1.c\<close>
  and \<open>ns1.b\<close> on \<open>ns2.a\<close>; and the graph the first loop builds for the scope \<open>ns1\<close>.
\<close>

definition leak_registry :: "model_class list" where
  "leak_registry =
     [view ''ns1'' ''t'' [], view ''ns1'' ''c'' [(''ns1'', ''T'')],
      view ''ns2'' ''a'' [(''ns1'', ''C'')], view ''ns1'' ''b'' [(''ns2'', ''A'')]]"

definition leak_graph :: graph where
  "leak_graph = [(''ns1_c'', [''ns1_t'']), (''ns1_b'', [''ns2_a''])]"

text \<open>
  A concrete materialized view and a concrete plain view, neither of which defines
  \<open>sql\<close>; a materialized view whose policy hook refuses the refresh.
\<close>

definition bare_materialized :: model_class where
  "bare_materialized =
     \<lparr>app_label = ''ns'', model_name = ''mv'', db_table = ''ns_mv'', abstract = False,
      base = MaterializedViewedModel, sql_override = None, dependencies = [],
      params = PNone, concurrently = True, update_mv = (\<lambda>d. True)\<rparr>"

definition bare_view :: model_class where
  "bare_view = bare_materialized\<lparr>model_name := ''v'', db_table := ''ns_v'', base := ViewedModel\<rparr>"

definition paused_materialized :: model_class where
  "paused_materialized = bare_materialized\<lparr>update_mv := (\<lambda>d. False)\<rparr>"

text \<open>A call with \<open>dryrun=True\<close>, and a call without keyword arguments.\<close>

definition dry :: kwargs where
  "dry = \<lparr>kw_dryrun = Some True, kw_drop_cascade = None\<rparr>"

definition no_kwargs :: kwargs where
  "no_kwargs = \<lparr>kw_dryrun = None, kw_drop_cascade = None\<rparr>"

text \<open>The engine holding a legacy comment, and holding a JSON object.\<close>

definition legacy_db :: db where
  "legacy_db = example_db\<lparr>comments := (\<lambda>t. if t = ''ns_mv'' then Some ''hello'' else None)\<rparr>"

definition owner_json :: string where
  "owner_json = ''{'' @ [CHR 0x22] @ ''owner'' @ [CHR 0x22] @ '': '' @ [CHR 0x22] @ ''ops''
                    @ [CHR 0x22] @ ''}''"

definition json_db :: db where
  "json_db = example_db\<lparr>comments := (\<lambda>t. if t = ''ns_mv'' then Some owner_json else None)\<rparr>"

text \<open>The engine holding a JSON object one of whose values has an apostrophe.\<close>

definition obrien_db :: db where
  "obrien_db = example_db\<lparr>comments := (\<lambda>t. if t = ''ns_mv'' then Some obrien_json else None)\<rparr>"

section \<open>Properties of the scheduler\<close>

subsection \<open>One run of the loop\<close>

lemma index_of_less: "x \<in> set xs \<Longrightarrow> index_of xs x < length xs"
  by (induction xs) auto

lemma index_of_append:
  "index_of (xs @ ys) x = (if x \<in> set xs then index_of xs x else length xs + index_of ys x)"
  by (induction xs) auto

lemma ready_iff: "k \<in> set (ready data) \<longleftrightarrow> (k, []) \<in> set data"
  by (force simp: ready_def)

lemma ready_subset: "set (ready data) \<subseteq> fst ` set data"
  by (force simp: ready_def)

lemma keys_remove_ready: "fst ` set (remove_ready r data) = fst ` set data - set r"
  by (force simp: remove_ready_def)

lemma distinct_remove_ready:
  "distinct (map fst data) \<Longrightarrow> distinct (map fst (remove_ready r data))"
proof -
  assume d: "distinct (map fst data)"
  have "map fst (remove_ready r data) = filter (\<lambda>k. k \<notin> set r) (map fst data)"
    by (induction data) (auto simp: remove_ready_def)
  with d show ?thesis by simp
qed

lemma edges_remove_ready:
  "edges (remove_ready r data) = {(k, d). (k, d) \<in> edges data \<and> k \<notin> set r \<and> d \<notin> set r}"
  by (force simp: edges_def remove_ready_def)

lemma closed_remove_ready: "closed data \<Longrightarrow> closed (remove_ready r data)"
  unfolding closed_def keys_remove_ready
  by (force simp: remove_ready_def)

lemma edge_source_not_ready:
  assumes "distinct (map fst data)" "(k, d) \<in> edges data"
  shows "k \<notin> set (ready data)"
proof
  assume "k \<in> set (ready data)"
  then have a: "(k, []) \<in> set data" by (simp add: ready_iff)
  from assms(2) obtain ds where b: "(k, ds) \<in> set data" "d \<in> set ds" by (auto simp: edges_def)
  from assms(1) a b(1) have "ds = []" by (meson eq_key_imp_eq_value)
  with b(2) show False by simp
qed

lemma edges_keys: "(k, d) \<in> edges data \<Longrightarrow> k \<in> fst ` set data"
  by (force simp: edges_def)

lemma closed_edges: "closed data \<Longrightarrow> (k, d) \<in> edges data \<Longrightarrow> d \<in> fst ` set data"
  by (fastforce simp: edges_def closed_def)

lemma toposort_loop_sound:
  "closed data \<Longrightarrow> distinct (map fst data) \<Longrightarrow> toposort_loop data = Inr fl \<Longrightarrow>
     set fl = fst ` set data \<and> distinct fl \<and>
     (\<forall>(k, d) \<in> edges data. index_of fl d < index_of fl k)"
proof (induction data arbitrary: fl rule: toposort_loop.induct)
  case (1 data)
  show ?case
  proof (cases "ready data = []")
    case True
    with "1.prems"(3) have "data = []" "fl = []"
      by (auto simp: toposort_loop.simps[of data] split: if_splits)
    then show ?thesis by (simp add: edges_def)
  next
    case False
    let ?r = "ready data"
    let ?d' = "remove_ready ?r data"
    let ?p = "sort (remdups ?r)"
    from False "1.prems"(3) obtain rest where rest: "toposort_loop ?d' = Inr rest" "fl = ?p @ rest"
      by (auto simp: toposort_loop.simps[of data] split: sum.splits)
    have cl: "closed ?d'" using "1.prems"(1) by (rule closed_remove_ready)
    have di: "distinct (map fst ?d')" using "1.prems"(2) by (rule distinct_remove_ready)
    from "1.IH"[OF False cl di rest(1)]
    have ih: "set rest = fst ` set ?d'" "distinct rest"
      "\<forall>(k, d) \<in> edges ?d'. index_of rest d < index_of rest k" by auto
    have sp: "set ?p = set ?r" by simp
    have s1: "set fl = fst ` set data"
      using ih(1) ready_subset[of data] by (auto simp: rest(2) keys_remove_ready)
    have s2: "distinct fl"
      using ih(1,2) by (auto simp: rest(2) keys_remove_ready)
    have s3: "index_of fl d < index_of fl k" if e: "(k, d) \<in> edges data" for k d
    proof -
      have kn: "k \<notin> set ?r" using edge_source_not_ready[OF "1.prems"(2) e] .
      have kk: "k \<in> fst ` set data" using e by (rule edges_keys)
      show ?thesis
      proof (cases "d \<in> set ?r")
        case True
        then have "index_of ?p d < length ?p" by (intro index_of_less) simp
        with True kn show ?thesis by (simp add: rest(2) index_of_append)
      next
        case False
        with e kn have "(k, d) \<in> edges ?d'" by (simp add: edges_remove_ready)
        with ih(3) have "index_of rest d < index_of rest k" by auto
        with False kn show ?thesis by (simp add: rest(2) index_of_append)
      qed
    qed
    from s1 s2 s3 show ?thesis by auto
  qed
qed

lemma toposort_loop_error:
  "toposort_loop data = Inl err \<Longrightarrow> err = CircularDependencyError"
proof (induction data rule: toposort_loop.induct)
  case (1 data)
  then show ?case
    by (cases "ready data = []") (auto simp: toposort_loop.simps[of data] split: if_splits sum.splits)
qed

lemma finite_edges: "finite (edges g)"
proof -
  have "edges g \<subseteq> fst ` set g \<times> (\<Union>(set ` snd ` set g))"
    by (force simp: edges_def)
  then show ?thesis by (rule finite_subset) auto
qed

lemma acyclic_has_ready:
  assumes "closed data" "acyclic (edges data)" "data \<noteq> []"
  shows "ready data \<noteq> []"
proof -
  have "wf ((edges data)\<inverse>)"
    using assms(2) finite_edges[of data] by (simp add: finite_acyclic_wf)
  moreover from assms(3) obtain k0 where "k0 \<in> fst ` set data" by (cases data) auto
  ultimately obtain z where z: "z \<in> fst ` set data"
      "\<And>y. (y, z) \<in> (edges data)\<inverse> \<Longrightarrow> y \<notin> fst ` set data"
    by (rule wfE_min) blast
  from z(1) obtain ds where ds: "(z, ds) \<in> set data" by auto
  have "ds = []"
  proof (cases ds)
    case (Cons d ds')
    with ds have "(z, d) \<in> edges data" by (auto simp: edges_def)
    with z(2)[of d] closed_edges[OF assms(1)] show ?thesis by auto
  qed simp
  with ds show ?thesis by (auto simp: ready_iff[symmetric])
qed

lemma toposort_loop_acyclic:
  "closed data \<Longrightarrow> acyclic (edges data) \<Longrightarrow> \<exists>fl. toposort_loop data = Inr fl"
proof (induction data rule: toposort_loop.induct)
  case (1 data)
  show ?case
  proof (cases "ready data = []")
    case True
    with acyclic_has_ready[OF "1.prems"] have "data = []" by auto
    then show ?thesis by (simp add: toposort_loop.simps[of "[]"] ready_def)
  next
    case False
    have "acyclic (edges (remove_ready (ready data) data))"
      using "1.prems"(2) by (rule acyclic_subset) (auto simp: edges_remove_ready)
    with "1.IH"[OF False closed_remove_ready[OF "1.prems"(1)]]
    obtain rest where "toposort_loop (remove_ready (ready data) data) = Inr rest" by auto
    with False show ?thesis by (simp add: toposort_loop.simps[of data])
  qed
qed


subsection \<open>The scheduler on a whole dictionary\<close>

lemma set_extra_items: "set (extra_items_in_deps g) = \<Union>(set ` snd ` set g) - fst ` set g"
  by (auto simp: extra_items_in_deps_def)

lemma keys_completed: "fst ` set (completed g) = fst ` set g \<union> \<Union>(set ` snd ` set g)"
  by (auto simp: completed_def set_extra_items image_Un image_image)

lemma closed_completed: "closed (completed g)"
  unfolding closed_def keys_completed by (force simp: completed_def)

lemma distinct_completed: "distinct (map fst g) \<Longrightarrow> distinct (map fst (completed g))"
  by (auto simp: completed_def comp_def extra_items_in_deps_def)

lemma edges_completed: "edges (completed g) = edges g"
  by (auto simp: edges_def completed_def)

lemma toposort_flatten_eq:
  "toposort_flatten g = (if g = [] then Inr [] else toposort_loop (completed g))"
  by (simp add: toposort_flatten_def completed_def)

lemma toposort_flatten_sound:
  assumes "distinct (map fst g)" "toposort_flatten g = Inr fl"
  shows "distinct fl \<and> (\<forall>(k, d) \<in> edges g. k \<in> set fl \<and> d \<in> set fl \<and> index_of fl d < index_of fl k)"
proof (cases "g = []")
  case True
  with assms(2) show ?thesis by (simp add: toposort_flatten_eq edges_def)
next
  case False
  with assms(2) have l: "toposort_loop (completed g) = Inr fl" by (simp add: toposort_flatten_eq)
  from toposort_loop_sound[OF closed_completed distinct_completed[OF assms(1)] l]
  have a: "set fl = fst ` set (completed g)" "distinct fl"
    "\<forall>(k, d) \<in> edges g. index_of fl d < index_of fl k" by (auto simp: edges_completed)
  have "k \<in> set fl \<and> d \<in> set fl" if "(k, d) \<in> edges g" for k d
  proof -
    from that have "(k, d) \<in> edges (completed g)" by (simp add: edges_completed)
    then show ?thesis
      using edges_keys closed_edges[OF closed_completed] a(1) by blast
  qed
  with a show ?thesis by auto
qed

lemma toposort_flatten_acyclic:
  "acyclic (edges g) \<Longrightarrow> \<exists>fl. toposort_flatten g = Inr fl"
  using toposort_loop_acyclic[OF closed_completed, of g]
  by (simp add: toposort_flatten_eq edges_completed)

lemma toposort_flatten_cycle:
  assumes "distinct (map fst g)" "\<not> acyclic (edges g)"
  shows "toposort_flatten g = Inl CircularDependencyError"
proof (cases "toposort_flatten g")
  case (Inl err)
  then have "g \<noteq> []" by (auto simp: toposort_flatten_eq split: if_splits)
  with Inl have "toposort_loop (completed g) = Inl err" by (simp add: toposort_flatten_eq)
  then have "err = CircularDependencyError" by (rule toposort_loop_error)
  with Inl show ?thesis by simp
next
  case (Inr fl)
  from toposort_flatten_sound[OF assms(1) Inr]
  have "\<And>a b. (a, b) \<in> edges g \<Longrightarrow> index_of fl b < index_of fl a" by auto
  then have "acyclic (edges g)" by (rule acyclicI_order)
  with assms(2) show ?thesis by simp
qed

subsection \<open>The first loop\<close>

lemma keys_add_dep:
  "map fst (add_dep k v g) = (if k \<in> set (map fst g) then map fst g else map fst g @ [k])"
proof (induction g)
  case Nil
  then show ?case by simp
next
  case (Cons p g)
  obtain k' vs where p: "p = (k', vs)" by (cases p)
  show ?case
  proof (cases "k' = k")
    case True
    then show ?thesis by (simp add: p)
  next
    case False
    then show ?thesis using Cons.IH by (simp add: p)
  qed
qed

lemma distinct_add_dep: "distinct (map fst g) \<Longrightarrow> distinct (map fst (add_dep k v g))"
  by (simp add: keys_add_dep del: set_map)

lemma edges_Nil: "edges [] = {}"
  by (simp add: edges_def)

lemma edges_Cons: "edges ((k, vs) # g) = (\<lambda>d. (k, d)) ` set vs \<union> edges g"
  by (auto simp: edges_def)

lemma edges_add_dep: "edges (add_dep k v g) = insert (k, v) (edges g)"
proof (induction g)
  case Nil
  then show ?case by (simp add: edges_Nil edges_Cons)
next
  case (Cons p g)
  obtain k' vs where p: "p = (k', vs)" by (cases p)
  show ?case
  proof (cases "k' = k")
    case True
    then show ?thesis by (auto simp: p edges_Cons)
  next
    case False
    then show ?thesis by (auto simp: p edges_Cons Cons.IH)
  qed
qed

lemma add_dependencies_graph:
  "add_dependencies e reg cls deps g = Inr g' \<Longrightarrow>
     (distinct (map fst g) \<longrightarrow> distinct (map fst g')) \<and>
     edges g' = edges g \<union> Pair cls ` set (dependency_names e reg deps)"
proof (induction deps arbitrary: g)
  case Nil
  then show ?case by simp
next
  case (Cons dep deps)
  from Cons.prems obtain m where m: "get_model reg (fst dep) (snd dep) = Inr m"
    and r: "add_dependencies e reg cls deps (add_dep cls (model_default_table_name e m) g) = Inr g'"
    by (auto split: sum.splits)
  from Cons.IH[OF r] show ?case
    by (simp add: m distinct_add_dep edges_add_dep)
qed

lemma build_dependencies_graph:
  "build_dependencies e reg scope cs g = Inr g' \<Longrightarrow>
     (distinct (map fst g) \<longrightarrow> distinct (map fst g')) \<and>
     edges g' = edges g \<union> set (declared_in e reg scope cs)"
proof (induction cs arbitrary: g)
  case Nil
  then show ?case by simp
next
  case (Cons c cs)
  show ?case
  proof (cases "out_of_scope scope c \<or> abstract c")
    case True
    with Cons.prems have "build_dependencies e reg scope cs g = Inr g'"
      by (auto split: if_splits)
    from Cons.IH[OF this] True show ?thesis by simp
  next
    case False
    with Cons.prems obtain g1 where
      a: "add_dependencies e reg (model_default_table_name e c) (dependencies c) g = Inr g1"
      and b: "build_dependencies e reg scope cs g1 = Inr g'"
      by (auto split: sum.splits)
    from add_dependencies_graph[OF a] Cons.IH[OF b] False show ?thesis
      by (simp add: Un_assoc)
  qed
qed

lemma dependency_graph_distinct:
  "dependency_graph e reg apps = Inr g \<Longrightarrow> distinct (map fst g)"
  using build_dependencies_graph[of e reg "parse_scope apps" "get_subclasses reg" "[]" g]
  by (simp add: dependency_graph_def)

lemma dependency_graph_edges:
  "dependency_graph e reg apps = Inr g \<Longrightarrow>
     edges g = set (declared_dependencies e reg apps)"
  using build_dependencies_graph[of e reg "parse_scope apps" "get_subclasses reg" "[]" g]
  by (simp add: dependency_graph_def edges_def declared_dependencies_def)

subsection \<open>The second loop\<close>

lemma collect_models_concat:
  "collect_models reg fl = Inr ms \<Longrightarrow> ms = concat (map (scheduled reg) fl)"
  by (induction fl arbitrary: ms) (auto simp: scheduled_def split: sum.splits)

lemma index_of_split:
  assumes "d \<in> set fl" "k \<in> set fl" "index_of fl d < index_of fl k"
  shows "\<exists>xs ys zs. fl = xs @ d # ys @ k # zs"
  using assms
proof (induction fl)
  case Nil
  then show ?case by simp
next
  case (Cons x fl)
  show ?case
  proof (cases "x = d")
    case True
    with Cons.prems have "k \<in> set fl" by (auto split: if_splits)
    then obtain ys zs where "fl = ys @ k # zs" by (auto dest: split_list)
    with True have "x # fl = [] @ d # ys @ k # zs" by simp
    then show ?thesis by blast
  next
    case False
    with Cons.prems have "d \<in> set fl" "k \<in> set fl" "index_of fl d < index_of fl k"
      by (auto split: if_splits)
    from Cons.IH[OF this] obtain xs ys zs where "fl = xs @ d # ys @ k # zs" by blast
    then have "x # fl = (x # xs) @ d # ys @ k # zs" by simp
    then show ?thesis by blast
  qed
qed

subsection \<open>From the graph to the returned list\<close>

lemma flattened_order:
  assumes "dependency_graph e reg apps = Inr g" and "toposort_flatten g = Inr fl"
    and "(k, d) \<in> set (declared_dependencies e reg apps)"
  shows "\<exists>xs ys zs. fl = xs @ d # ys @ k # zs"
proof -
  from assms(3) have "(k, d) \<in> edges g" by (simp add: dependency_graph_edges[OF assms(1)])
  with toposort_flatten_sound[OF dependency_graph_distinct[OF assms(1)] assms(2)]
  have "d \<in> set fl" "k \<in> set fl" "index_of fl d < index_of fl k" by auto
  then show ?thesis by (rule index_of_split)
qed

lemma sort_dependencies_parts:
  assumes "sort_dependencies e reg apps = Inr ms"
  shows "\<exists>g fl. dependency_graph e reg apps = Inr g \<and> toposort_flatten g = Inr fl \<and>
           ms = concat (map (scheduled reg) fl)"
  using assms
  by (auto simp: sort_dependencies_def flattened_identifiers_def split: sum.splits
      dest: collect_models_concat)

lemma rev_scheduled: "rev (scheduled reg name) = scheduled reg name"
  by (auto simp: scheduled_def collect_step_def Let_def split: sum.splits if_splits)

section \<open>The claims\<close>

subsection \<open>Scheduling and scope\<close>

lemma chain_graph_built:
  "dependency_graph example_env chain_registry ''all'' = Inr chain_graph"
  by code_simp

lemma chain_acyclic: "acyclic (edges chain_graph)"
proof (rule acyclicI_order)
  fix a b :: string
  assume "(a, b) \<in> edges chain_graph"
  then show "index_of [''ns_a'', ''ns_b'', ''ns_c''] b < index_of [''ns_a'', ''ns_b'', ''ns_c''] a"
    by (auto simp: chain_graph_def edges_Cons edges_Nil)
qed

lemma chain_declared:
  "(''ns_b'', ''ns_a'') \<in> set (declared_dependencies example_env chain_registry ''all'')"
  by code_simp

text \<open>
  The order among the definitions in scope. When the dependency graph built from the
  registered definitions is acyclic, the scheduler returns a flattened sequence without
  repetition in which, for every definition in scope and every dependency it declares,
  the dependency's identifier stands earlier than the definition's identifier; the list
  \<open>sort_dependencies\<close> returns holds, in that same order, what each identifier
  resolves to.
\<close>

theorem sort_dependencies_dependencies_first:
  assumes "dependency_graph e reg apps = Inr g" and "acyclic (edges g)"
  shows "\<exists>flattened. flattened_identifiers e reg apps = Inr flattened \<and> distinct flattened \<and>
     (\<forall>(k, d) \<in> set (declared_dependencies e reg apps).
        \<exists>xs ys zs. flattened = xs @ d # ys @ k # zs \<and>
          (\<forall>ms. sort_dependencies e reg apps = Inr ms \<longrightarrow>
             ms = concat (map (scheduled reg) xs) @ scheduled reg d
                  @ concat (map (scheduled reg) ys) @ scheduled reg k
                  @ concat (map (scheduled reg) zs)))"
proof -
  from toposort_flatten_acyclic[OF assms(2)] obtain fl where fl: "toposort_flatten g = Inr fl"
    by blast
  with assms(1) have fi: "flattened_identifiers e reg apps = Inr fl"
    by (simp add: flattened_identifiers_def)
  from toposort_flatten_sound[OF dependency_graph_distinct[OF assms(1)] fl]
  have di: "distinct fl"
    and ord: "\<And>k d. (k, d) \<in> edges g \<Longrightarrow> k \<in> set fl \<and> d \<in> set fl \<and> index_of fl d < index_of fl k"
    by auto
  have "\<exists>xs ys zs. fl = xs @ d # ys @ k # zs \<and>
          (\<forall>ms. sort_dependencies e reg apps = Inr ms \<longrightarrow>
             ms = concat (map (scheduled reg) xs) @ scheduled reg d
                  @ concat (map (scheduled reg) ys) @ scheduled reg k
                  @ concat (map (scheduled reg) zs))"
    if kd: "(k, d) \<in> set (declared_dependencies e reg apps)" for k d
  proof -
    from kd have "(k, d) \<in> edges g" by (simp add: dependency_graph_edges[OF assms(1)])
    from ord[OF this] have "\<exists>xs ys zs. fl = xs @ d # ys @ k # zs"
      by (intro index_of_split) auto
    then obtain xs ys zs where sp: "fl = xs @ d # ys @ k # zs" by blast
    have "ms = concat (map (scheduled reg) xs) @ scheduled reg d
                  @ concat (map (scheduled reg) ys) @ scheduled reg k
                  @ concat (map (scheduled reg) zs)"
      if "sort_dependencies e reg apps = Inr ms" for ms
    proof -
      from that fi have "collect_models reg fl = Inr ms" by (simp add: sort_dependencies_def)
      then have "ms = concat (map (scheduled reg) fl)" by (rule collect_models_concat)
      then show ?thesis by (simp add: sp)
    qed
    with sp show ?thesis by blast
  qed
  with fi di show ?thesis by blast
qed

theorem sort_dependencies_dependencies_first_witness:
  "dependency_graph example_env chain_registry ''all'' = Inr chain_graph \<and>
   acyclic (edges chain_graph) \<and>
   (\<exists>flattened xs ys zs.
      flattened_identifiers example_env chain_registry ''all'' = Inr flattened \<and>
      flattened = xs @ ''ns_a'' # ys @ ''ns_b'' # zs)"
proof -
  from sort_dependencies_dependencies_first[OF chain_graph_built chain_acyclic]
  obtain flattened where
    a: "flattened_identifiers example_env chain_registry ''all'' = Inr flattened"
    and b: "\<forall>(k, d) \<in> set (declared_dependencies example_env chain_registry ''all'').
        \<exists>xs ys zs. flattened = xs @ d # ys @ k # zs \<and>
          (\<forall>ms. sort_dependencies example_env chain_registry ''all'' = Inr ms \<longrightarrow>
             ms = concat (map (scheduled chain_registry) xs) @ scheduled chain_registry d
                  @ concat (map (scheduled chain_registry) ys) @ scheduled chain_registry k
                  @ concat (map (scheduled chain_registry) zs))"
    by blast
  from bspec[OF b chain_declared]
  obtain xs ys zs where "flattened = xs @ ''ns_a'' # ys @ ''ns_b'' # zs"
    by auto
  with a chain_graph_built chain_acyclic show ?thesis by blast
qed

lemma leak_graph_built:
  "dependency_graph example_env leak_registry ''ns1'' = Inr leak_graph"
  by code_simp

lemma leak_acyclic: "acyclic (edges leak_graph)"
proof (rule acyclicI_order)
  fix a b :: string
  assume "(a, b) \<in> edges leak_graph"
  then show "index_of [''ns1_t'', ''ns2_a'', ''ns1_b'', ''ns1_c''] b
               < index_of [''ns1_t'', ''ns2_a'', ''ns1_b'', ''ns1_c''] a"
    by (auto simp: leak_graph_def edges_Cons edges_Nil)
qed

lemma leak_plan:
  "map_sum id (map (\<lambda>m. (app_label m, model_name m, dependencies m)))
     (sort_dependencies example_env leak_registry ''ns1'')
   = Inr [(''ns1'', ''t'', []), (''ns2'', ''a'', [(''ns1'', ''C'')]),
          (''ns1'', ''b'', [(''ns2'', ''A'')]), (''ns1'', ''c'', [(''ns1'', ''T'')])]"
  by code_simp

text \<open>
  C1. With the scope \<open>ns1\<close> the graph built from the four views is acyclic, and the
  list \<open>sort_dependencies\<close> returns places the view \<open>ns2.a\<close>, which declares \<open>ns1.C\<close> as
  a dependency, before \<open>ns1.c\<close>: the view from outside the scope enters the list as a
  dependency of \<open>ns1.b\<close> while its own dependencies are not in the graph.
\<close>

theorem out_of_scope_view_precedes_its_dependency:
  "dependency_graph example_env leak_registry ''ns1'' = Inr leak_graph \<and>
   acyclic (edges leak_graph) \<and>
   map_sum id (map (\<lambda>m. (app_label m, model_name m, dependencies m)))
     (sort_dependencies example_env leak_registry ''ns1'')
   = Inr [(''ns1'', ''t'', []), (''ns2'', ''a'', [(''ns1'', ''C'')]),
          (''ns1'', ''b'', [(''ns2'', ''A'')]), (''ns1'', ''c'', [(''ns1'', ''T'')])]"
  using leak_graph_built leak_acyclic leak_plan by simp

lemma chain_plan:
  "map_sum id (map model_name) (sort_dependencies example_env chain_registry ''all'')
     = Inr [''a'', ''b'', ''c'']"
  by code_simp

lemma cycle_graph_built:
  "dependency_graph example_env cycle_registry ''all'' = Inr cycle_graph"
  by code_simp

lemma cycle_cyclic: "\<not> acyclic (edges cycle_graph)"
proof -
  have "(''ns_x'', ''ns_y'') \<in> edges cycle_graph" "(''ns_y'', ''ns_x'') \<in> edges cycle_graph"
    by (simp_all add: cycle_graph_def edges_Cons edges_Nil)
  then have "(''ns_x'', ''ns_x'') \<in> (edges cycle_graph)\<^sup>+"
    by (rule trancl_into_trancl[OF r_into_trancl])
  then show ?thesis unfolding acyclic_def by blast
qed

text \<open>
  C2. When the dependency graph built from the registered definitions contains a
  cycle, the scheduler raises the cycle error and \<open>sort_dependencies\<close> raises it too:
  no list, partial or not, is returned.
\<close>

theorem sort_dependencies_cycle_error:
  assumes "dependency_graph e reg apps = Inr g" and "\<not> acyclic (edges g)"
  shows "flattened_identifiers e reg apps = Inl CircularDependencyError \<and>
         sort_dependencies e reg apps = Inl CircularDependencyError"
  using toposort_flatten_cycle[OF dependency_graph_distinct[OF assms(1)] assms(2)] assms(1)
  by (simp add: flattened_identifiers_def sort_dependencies_def)

theorem sort_dependencies_cycle_error_witness:
  "dependency_graph example_env cycle_registry ''all'' = Inr cycle_graph \<and>
   \<not> acyclic (edges cycle_graph) \<and>
   flattened_identifiers example_env cycle_registry ''all'' = Inl CircularDependencyError \<and>
   sort_dependencies example_env cycle_registry ''all'' = Inl CircularDependencyError"
  using sort_dependencies_cycle_error[OF cycle_graph_built cycle_cyclic]
    cycle_graph_built cycle_cyclic
  by blast

text \<open>
  C4. With the scope \<open>ns1\<close>, a view of \<open>ns1\<close> that declares a view of \<open>ns2\<close> as a
  dependency brings the \<open>ns2\<close> view into the ordered list every plan is built from.
\<close>

theorem scope_admits_out_of_scope_dependency:
  "map_sum id (map (\<lambda>m. (app_label m, model_name m)))
     (sort_dependencies example_env scope_registry ''ns1'')
   = Inr [(''ns2'', ''a''), (''ns1'', ''b'')]"
  by code_simp

subsection \<open>Rendering and refresh\<close>

text \<open>
  C8. A plain view that never defined \<open>sql\<close> fails the assertion of \<open>sql_create\<close>; a
  materialized view that never defined it inherits the \<open>sql\<close> of
  \<open>MaterializedViewedModel\<close>, which returns \<open>None\<close>, and \<open>sql_create\<close> renders
  \<open>AS (None)\<close> without failing.
\<close>

theorem create_without_body:
  "sql_create bare_view dry example_db = Inl AssertionError \<and>
   sql_create bare_materialized dry example_db
     = Inr ([PStr (''CREATE MATERIALIZED VIEW '' @ [CHR 0x22] @ ''ns_mv'' @ [CHR 0x22] @ '' AS (None)''),
             PNone], example_db)"
  by (simp add: sql_create_def sql_attr_def bare_view_def bare_materialized_def dry_def
      get_dryrun_def create_text_def view_type_def materialized_def table_name_def py_format_def)

text \<open>
  C9. For a materialized view whose policy allows the refresh, \<open>sql_refresh\<close> with
  \<open>dryrun\<close> set executes nothing and returns \<open>None\<close>, not the rendered pair.
\<close>

theorem refresh_dryrun_returns_none:
  "update_mv bare_materialized example_db \<and>
   sql_refresh example_env bare_materialized dry example_db = Inr (PNone, example_db)"
  by (simp add: sql_refresh_def bare_materialized_def dry_def get_dryrun_def)

text \<open>
  C7. When the policy hook \<open>update_mv\<close> of a materialized view returns false,
  \<open>sql_refresh\<close> returns \<open>None\<close> without raising and leaves the connection as it
  was: nothing is executed and no comment is changed. In the comprehension of
  \<open>refresh_mv\<close> the entity contributes \<open>None\<close> and the remaining entities are
  refreshed from the unchanged connection.
\<close>

theorem refresh_skipped_by_policy:
  assumes "\<not> update_mv m d"
  shows "sql_refresh e m kw d = Inr (PNone, d) \<and>
         (\<forall>models. for_each (\<lambda>model. sql_refresh e model kw) (m # models) d =
            (case for_each (\<lambda>model. sql_refresh e model kw) models d of
               Inl err \<Rightarrow> Inl err
             | Inr (ys, d') \<Rightarrow> Inr (PNone # ys, d')))"
  using assms by (simp add: sql_refresh_def)

theorem refresh_skipped_by_policy_witness:
  "\<not> update_mv paused_materialized json_db \<and>
   sql_refresh example_env paused_materialized no_kwargs json_db = Inr (PNone, json_db)"
  using refresh_skipped_by_policy[of paused_materialized json_db example_env no_kwargs]
  by (simp add: paused_materialized_def)

subsection \<open>The metadata comment\<close>

lemma map_of_dict_set: "map_of (dict_set k v kvs) = (map_of kvs)(k \<mapsto> v)"
  by (induction kvs) (auto simp: fun_eq_iff)

lemma execute_accepted:
  "\<not> rejects d q \<Longrightarrow> execute q ps d = Inr (d\<lparr>executed := executed d @ [(q, ps)]\<rparr>)"
  by (simp add: execute_def)

lemma sql_literal_plain: "CHR 0x27 \<notin> set s \<Longrightarrow> sql_literal s = Some s"
  by (induction s) auto

lemma set_comment_result:
  assumes "\<not> rejects d (get_comment_text m)" and "\<not> rejects d ''SELECT now()::text''"
    and "parse_comment e (comment_or_default (comments d (table_name m))) = PDict kvs"
    and "stored = json_dumps e (PDict (dict_set ''last_updated'' (PStr (now d)) kvs))"
    and "CHR 0x27 \<notin> set stored" and "\<not> rejects d (set_comment_text m stored)"
  shows "\<exists>d1. set_comment e m d = Inr d1 \<and> rejects d1 = rejects d \<and>
           comments d1 (table_name m) = Some stored"
  using assms
  by (simp add: set_comment_def get_comment_def time_from_db_def set_comment_raw_def
      execute_accepted py_setitem_def sql_literal_plain)

lemma get_comment_result:
  assumes "\<not> rejects d (get_comment_text m)"
  shows "\<exists>d1. get_comment m d = Inr (comments d (table_name m), d1)"
  using assms by (simp add: get_comment_def execute_accepted)

text \<open>
  The merge of \<open>set_comment\<close>, where the serialised object holds no single quote and
  the engine accepts the statements issued: \<open>set_comment\<close> followed by \<open>get_comment\<close>
  yields the serialised object obtained from the prior one by setting \<open>last_updated\<close>
  to the engine's time, every other key holding what it held before.
\<close>

lemma set_comment_merges_last_updated:
  assumes "comments d (table_name m) = Some prior" and "prior \<noteq> []"
    and "json_loads e prior = Some (PDict kvs)"
    and "merged = dict_set ''last_updated'' (PStr (now d)) kvs"
    and "CHR 0x27 \<notin> set (json_dumps e (PDict merged))"
    and "\<not> rejects d (get_comment_text m)" and "\<not> rejects d ''SELECT now()::text''"
    and "\<not> rejects d (set_comment_text m (json_dumps e (PDict merged)))"
  shows "\<exists>d1 d2.
           set_comment e m d = Inr d1 \<and>
           get_comment m d1 = Inr (Some (json_dumps e (PDict merged)), d2) \<and>
           map_of merged ''last_updated'' = Some (PStr (now d)) \<and>
           (\<forall>k. k \<noteq> ''last_updated'' \<longrightarrow> map_of merged k = map_of kvs k)"
proof -
  have p: "parse_comment e (comment_or_default (comments d (table_name m))) = PDict kvs"
    using assms(1-3) by (simp add: parse_comment_def comment_or_default_def)
  have s: "json_dumps e (PDict merged)
             = json_dumps e (PDict (dict_set ''last_updated'' (PStr (now d)) kvs))"
    by (simp add: assms(4))
  from set_comment_result[OF assms(6,7) p s assms(5,8)] obtain d1 where
    d1: "set_comment e m d = Inr d1" "rejects d1 = rejects d"
      "comments d1 (table_name m) = Some (json_dumps e (PDict merged))"
    by blast
  from d1(2) assms(6) have "\<not> rejects d1 (get_comment_text m)" by simp
  from get_comment_result[OF this] d1(3) obtain d2 where
    "get_comment m d1 = Inr (Some (json_dumps e (PDict merged)), d2)"
    by auto
  with d1(1) show ?thesis by (simp add: assms(4) map_of_dict_set)
qed

text \<open>
  C5. The prior comment is the JSON object whose \<open>owner\<close> is \<open>o'brien\<close>. \<open>set_comment\<close>
  parses it, sets \<open>last_updated\<close> and pastes the serialised object between the single
  quotes of the \<open>COMMENT ON\<close> statement; the apostrophe ends the literal, the statement
  is malformed and the call raises \<open>ProgrammingError\<close>: nothing is written.
\<close>

theorem set_comment_rejects_apostrophe:
  "comments obrien_db (table_name bare_materialized) = Some obrien_json \<and>
   json_loads example_env obrien_json
     = Some (PDict [(''owner'', PStr (''o'' @ [CHR 0x27] @ ''brien''))]) \<and>
   set_comment example_env bare_materialized obrien_db = Inl ProgrammingError"
  by (simp add: set_comment_def get_comment_def time_from_db_def set_comment_raw_def
      execute_def py_setitem_def parse_comment_def comment_or_default_def obrien_db_def
      example_db_def obrien_json_def example_env_def example_loads_def example_dumps_def
      table_name_def bare_materialized_def)

text \<open>
  C6, as stated, fails: on the existing comment \<open>hello\<close>, which is not JSON,
  \<open>get_comment\<close> returns the raw text \<open>hello\<close>, not the wrapped object.
\<close>

theorem get_comment_returns_raw_text:
  "map_sum id fst (get_comment bare_materialized legacy_db) = Inr (Some ''hello'') \<and>
   ''hello'' \<noteq> json_dumps example_env (PDict [(''old_content'', PStr ''hello'')])"
  by (simp add: get_comment_def execute_def legacy_db_def example_db_def table_name_def
      bare_materialized_def example_env_def example_dumps_def)

text \<open>
  C6, amended. For an existing comment that is not valid JSON, \<open>get_comment\<close> returns
  the raw text unchanged; the wrapping is done by \<open>set_comment\<close>: where the serialised
  object made of \<open>old_content\<close>, holding the raw text, and \<open>last_updated\<close> holds no
  single quote and the engine accepts the statements issued, \<open>set_comment\<close> stores that
  object, so the text is not discarded.
\<close>

theorem legacy_comment_wrapped_on_write:
  assumes "comments d (table_name m) = Some raw" and "raw \<noteq> []"
    and "json_loads e raw = None"
    and "wrapped = json_dumps e
           (PDict [(''old_content'', PStr raw), (''last_updated'', PStr (now d))])"
    and "CHR 0x27 \<notin> set wrapped"
    and "\<not> rejects d (get_comment_text m)" and "\<not> rejects d ''SELECT now()::text''"
    and "\<not> rejects d (set_comment_text m wrapped)"
  shows "(\<exists>d1. get_comment m d = Inr (Some raw, d1)) \<and>
         (\<exists>d2. set_comment e m d = Inr d2 \<and> comments d2 (table_name m) = Some wrapped)"
proof -
  have p: "parse_comment e (comment_or_default (comments d (table_name m)))
          = PDict [(''old_content'', PStr raw)]"
    using assms(1-3) by (simp add: parse_comment_def comment_or_default_def)
  have s: "wrapped = json_dumps e
      (PDict (dict_set ''last_updated'' (PStr (now d)) [(''old_content'', PStr raw)]))"
    by (simp add: assms(4))
  from set_comment_result[OF assms(6,7) p s assms(5,8)] get_comment_result[OF assms(6)]
    assms(1)
  show ?thesis by auto
qed

lemma legacy_db_facts:
  "comments legacy_db (table_name bare_materialized) = Some ''hello''"
  "''hello'' \<noteq> []"
  "json_loads example_env ''hello'' = None"
  by (simp_all add: legacy_db_def example_db_def table_name_def bare_materialized_def
      example_env_def example_loads_def obrien_json_def)

lemma legacy_db_wrapped:
  "CHR 0x27 \<notin> set (json_dumps example_env
     (PDict [(''old_content'', PStr ''hello''), (''last_updated'', PStr (now legacy_db))]))"
  by (simp add: example_env_def example_dumps_def legacy_db_def example_db_def)

lemma legacy_db_accepts: "\<not> rejects legacy_db q"
  by (simp add: legacy_db_def example_db_def)

theorem legacy_comment_wrapped_on_write_witness:
  "comments legacy_db (table_name bare_materialized) = Some ''hello'' \<and>
   json_loads example_env ''hello'' = None \<and>
   (\<exists>d1. get_comment bare_materialized legacy_db = Inr (Some ''hello'', d1)) \<and>
   (\<exists>d2. set_comment example_env bare_materialized legacy_db = Inr d2 \<and>
      comments d2 (table_name bare_materialized)
        = Some (json_dumps example_env
            (PDict [(''old_content'', PStr ''hello''), (''last_updated'', PStr (now legacy_db))])))"
  using legacy_comment_wrapped_on_write[OF legacy_db_facts refl legacy_db_wrapped
      legacy_db_accepts legacy_db_accepts legacy_db_accepts]
    legacy_db_facts(1,3)
  by blast

subsection \<open>The drop and create plans\<close>

text \<open>
  The two plans. For every scope, the entities \<open>drop_all_statements\<close> iterates over
  are those \<open>create_all_statements\<close> iterates over, in reverse order (and both raise
  the same error when the ordering fails); each plan renders one statement per entity
  of its list, in that order. In the drop order, what is scheduled for a definition in
  scope comes before what is scheduled for each dependency it declares.
\<close>

theorem drop_order_reverses_create_order:
  "drop_all_order e reg apps = map_sum id rev (create_all_order e reg apps) \<and>
   (\<forall>ms. create_all_order e reg apps = Inr ms \<longrightarrow>
      drop_all_statements e reg dryrun apps d
        = for_each (\<lambda>model. sql_drop model (drop_kwargs dryrun)) (rev ms) d \<and>
      create_all_statements e reg dryrun apps d
        = for_each (\<lambda>model. sql_create model (drop_kwargs dryrun)) ms d \<and>
      (\<forall>(k, dep) \<in> set (declared_dependencies e reg apps).
         \<exists>xs ys zs. rev ms = xs @ scheduled reg k @ ys @ scheduled reg dep @ zs))"
proof -
  have a: "drop_all_order e reg apps = map_sum id rev (create_all_order e reg apps)"
    by (simp add: drop_all_order_def create_all_order_def split: sum.splits)
  have b: "drop_all_statements e reg dryrun apps d
        = for_each (\<lambda>model. sql_drop model (drop_kwargs dryrun)) (rev ms) d \<and>
      create_all_statements e reg dryrun apps d
        = for_each (\<lambda>model. sql_create model (drop_kwargs dryrun)) ms d"
    if "create_all_order e reg apps = Inr ms" for ms
    using that
    by (simp add: drop_all_order_def create_all_order_def drop_all_statements_def
        create_all_statements_def)
  have c: "\<exists>xs ys zs. rev ms = xs @ scheduled reg k @ ys @ scheduled reg dep @ zs"
    if ms: "create_all_order e reg apps = Inr ms"
      and kd: "(k, dep) \<in> set (declared_dependencies e reg apps)" for ms k dep
  proof -
    from ms have "sort_dependencies e reg apps = Inr ms" by (simp add: create_all_order_def)
    from sort_dependencies_parts[OF this] obtain g fl where
      g: "dependency_graph e reg apps = Inr g" and fl: "toposort_flatten g = Inr fl"
      and c: "ms = concat (map (scheduled reg) fl)" by blast
    from flattened_order[OF g fl kd] obtain xs ys zs where "fl = xs @ dep # ys @ k # zs"
      by blast
    with c have "rev ms = rev (concat (map (scheduled reg) zs)) @ scheduled reg k
        @ rev (concat (map (scheduled reg) ys)) @ scheduled reg dep
        @ rev (concat (map (scheduled reg) xs))"
      by (simp add: rev_scheduled)
    then show ?thesis by blast
  qed
  from a b c show ?thesis by blast
qed

lemma chain_drop_texts:
  "map_sum id (map (\<lambda>s. s ! 0) \<circ> fst)
     (drop_all_statements example_env chain_registry True ''all'' example_db)
   = Inr [PStr (''DROP VIEW IF EXISTS '' @ [CHR 0x22] @ ''ns_c'' @ [CHR 0x22] @ '' ;''),
          PStr (''DROP VIEW IF EXISTS '' @ [CHR 0x22] @ ''ns_b'' @ [CHR 0x22] @ '' ;''),
          PStr (''DROP VIEW IF EXISTS '' @ [CHR 0x22] @ ''ns_a'' @ [CHR 0x22] @ '' ;'')]"
  by code_simp

theorem drop_order_reverses_create_order_witness:
  "\<exists>ms. create_all_order example_env chain_registry ''all'' = Inr ms \<and>
     map model_name ms = [''a'', ''b'', ''c''] \<and>
     drop_all_order example_env chain_registry ''all'' = Inr (rev ms) \<and>
     drop_all_statements example_env chain_registry True ''all'' example_db
       = for_each (\<lambda>model. sql_drop model (drop_kwargs True)) (rev ms) example_db"
proof -
  from chain_plan obtain ms where
    ms: "create_all_order example_env chain_registry ''all'' = Inr ms"
      "map model_name ms = [''a'', ''b'', ''c'']"
    by (cases "sort_dependencies example_env chain_registry ''all''")
       (auto simp: create_all_order_def)
  with drop_order_reverses_create_order[of example_env chain_registry "''all''" True example_db]
  show ?thesis by auto
qed

lemma leak_drop_order:
  "map_sum id (map (\<lambda>m. (app_label m, model_name m, dependencies m)))
     (drop_all_order example_env leak_registry ''ns1'')
   = Inr [(''ns1'', ''c'', [(''ns1'', ''T'')]), (''ns1'', ''b'', [(''ns2'', ''A'')]),
          (''ns2'', ''a'', [(''ns1'', ''C'')]), (''ns1'', ''t'', [])]"
  by code_simp

lemma leak_drop_texts:
  "map_sum id (map (\<lambda>s. s ! 0) \<circ> fst)
     (drop_all_statements example_env leak_registry True ''ns1'' example_db)
   = Inr [PStr (''DROP VIEW IF EXISTS '' @ [CHR 0x22] @ ''ns1_c'' @ [CHR 0x22] @ '' ;''),
          PStr (''DROP VIEW IF EXISTS '' @ [CHR 0x22] @ ''ns1_b'' @ [CHR 0x22] @ '' ;''),
          PStr (''DROP VIEW IF EXISTS '' @ [CHR 0x22] @ ''ns2_a'' @ [CHR 0x22] @ '' ;''),
          PStr (''DROP VIEW IF EXISTS '' @ [CHR 0x22] @ ''ns1_t'' @ [CHR 0x22] @ '' ;'')]"
  by code_simp

text \<open>
  C3. With the scope \<open>ns1\<close> the drop plan is the reverse of the create plan, and its
  first statement drops \<open>ns1_c\<close> while \<open>ns2_a\<close>, whose definition declares \<open>ns1.C\<close> as a
  dependency, is dropped only third: a DROP targets an object that an entity of the
  plan, not yet dropped, still depends on.
\<close>

theorem drop_plan_drops_dependency_first:
  "map_sum id (map (\<lambda>m. (app_label m, model_name m, dependencies m)))
     (drop_all_order example_env leak_registry ''ns1'')
   = Inr [(''ns1'', ''c'', [(''ns1'', ''T'')]), (''ns1'', ''b'', [(''ns2'', ''A'')]),
          (''ns2'', ''a'', [(''ns1'', ''C'')]), (''ns1'', ''t'', [])] \<and>
   drop_all_order example_env leak_registry ''ns1''
     = map_sum id rev (create_all_order example_env leak_registry ''ns1'') \<and>
   map_sum id (map (\<lambda>s. s ! 0) \<circ> fst)
     (drop_all_statements example_env leak_registry True ''ns1'' example_db)
   = Inr [PStr (''DROP VIEW IF EXISTS '' @ [CHR 0x22] @ ''ns1_c'' @ [CHR 0x22] @ '' ;''),
          PStr (''DROP VIEW IF EXISTS '' @ [CHR 0x22] @ ''ns1_b'' @ [CHR 0x22] @ '' ;''),
          PStr (''DROP VIEW IF EXISTS '' @ [CHR 0x22] @ ''ns2_a'' @ [CHR 0x22] @ '' ;''),
          PStr (''DROP VIEW IF EXISTS '' @ [CHR 0x22] @ ''ns1_t'' @ [CHR 0x22] @ '' ;'')]"
  using leak_drop_order leak_drop_texts
  by (simp add: drop_all_order_def create_all_order_def split: sum.splits)

subsection \<open>Which errors each step can raise\<close>

lemma get_model_error: "get_model reg a n = Inl err \<Longrightarrow> err = LookupError"
  by (auto simp: get_model_def split: option.splits)

lemma add_dependencies_error:
  "add_dependencies e reg cls deps g = Inl err \<Longrightarrow> err = LookupError"
  by (induction deps arbitrary: g) (auto split: sum.splits)

lemma build_dependencies_error:
  "build_dependencies e reg scope cs g = Inl err \<Longrightarrow> err = LookupError"
  by (induction cs arbitrary: g) (auto split: sum.splits if_splits dest: add_dependencies_error)

lemma toposort_flatten_error: "toposort_flatten g = Inl err \<Longrightarrow> err = CircularDependencyError"
  by (auto simp: toposort_flatten_def split: if_splits dest: toposort_loop_error)

lemma collect_step_error: "collect_step reg name = Inl err \<Longrightarrow> err = LookupError"
  by (auto simp: collect_step_def Let_def split: if_splits sum.splits dest: get_model_error)

lemma collect_models_error: "collect_models reg names = Inl err \<Longrightarrow> err = LookupError"
  by (induction names) (auto split: sum.splits dest: collect_step_error)

lemma sort_dependencies_error:
  "sort_dependencies e reg apps = Inl err \<Longrightarrow> err = LookupError \<or> err = CircularDependencyError"
  by (auto simp: sort_dependencies_def flattened_identifiers_def dependency_graph_def
      split: sum.splits
      dest: build_dependencies_error toposort_flatten_error collect_models_error)

lemma collect_step_has_sql:
  "collect_step reg name = Inr found \<Longrightarrow> \<forall>m\<in>set found. hasattr_sql m"
  by (auto simp: collect_step_def Let_def split: if_splits sum.splits)

lemma collect_models_has_sql:
  "collect_models reg names = Inr ms \<Longrightarrow> \<forall>m\<in>set ms. hasattr_sql m"
proof (induction names arbitrary: ms)
  case Nil
  then show ?case by simp
next
  case (Cons name names)
  from Cons.prems obtain found rest where
    a: "collect_step reg name = Inr found" and b: "collect_models reg names = Inr rest"
    and c: "ms = found @ rest"
    by (auto split: sum.splits)
  from collect_step_has_sql[OF a] Cons.IH[OF b] c show ?case by auto
qed

lemma sort_dependencies_has_sql:
  "sort_dependencies e reg apps = Inr ms \<Longrightarrow> \<forall>m\<in>set ms. hasattr_sql m"
  by (auto simp: sort_dependencies_def split: sum.splits dest: collect_models_has_sql)

subsection \<open>The shape of the rendered statements\<close>

lemma sql_drop_shape: "sql_drop m kw d = Inr (s, d') \<Longrightarrow> pair_shaped s"
  by (auto simp: sql_drop_def pair_shaped_def Let_def split: if_splits sum.splits)

lemma sql_create_shape: "sql_create m kw d = Inr (s, d') \<Longrightarrow> pair_shaped s"
  by (auto simp: sql_create_def pair_shaped_def Let_def split: option.splits if_splits sum.splits)

lemma sql_drop_dryrun: "sql_drop m (drop_kwargs True) d = Inr ([PStr (drop_text m (drop_kwargs True)), PNone], d)"
  by (simp add: sql_drop_def drop_kwargs_def get_dryrun_def)

lemma sql_create_dryrun_error:
  "sql_create m (drop_kwargs True) d = Inl err \<Longrightarrow> \<not> hasattr_sql m"
  by (auto simp: sql_create_def drop_kwargs_def get_dryrun_def hasattr_sql_def Let_def
      split: option.splits)

lemma for_each_all:
  assumes "\<And>x d y d'. f x d = Inr (y, d') \<Longrightarrow> P y"
  shows "for_each f xs d = Inr (ys, d') \<Longrightarrow> \<forall>y\<in>set ys. P y"
proof (induction xs arbitrary: d ys)
  case Nil
  then show ?case by simp
next
  case (Cons x xs)
  from Cons.prems obtain y d1 zs where
    a: "f x d = Inr (y, d1)" and b: "for_each f xs d1 = Inr (zs, d')" and c: "ys = y # zs"
    by (auto split: sum.splits prod.splits)
  from assms[OF a] Cons.IH[OF b] c show ?case by simp
qed

lemma for_each_error:
  "for_each f xs d = Inl err \<Longrightarrow> \<exists>x\<in>set xs. \<exists>d1. f x d1 = Inl err"
proof (induction xs arbitrary: d)
  case Nil
  then show ?case by simp
next
  case (Cons x xs)
  show ?case
  proof (cases "f x d")
    case (Inl e')
    with Cons.prems have "e' = err" by simp
    with Inl show ?thesis by auto
  next
    case (Inr r)
    obtain y d1 where r: "r = (y, d1)" by (cases r)
    with Inr Cons.prems have "for_each f xs d1 = Inl err"
      by (auto split: sum.splits prod.splits)
    from Cons.IH[OF this] show ?thesis by auto
  qed
qed

lemma execute_error: "execute q ps d = Inl err \<Longrightarrow> err = ProgrammingError"
  by (auto simp: execute_def split: if_splits)

lemma recreate_loop_error:
  "\<forall>s\<in>set ss. pair_shaped s \<Longrightarrow> recreate_loop ss d = Inl err \<Longrightarrow> err = ProgrammingError"
proof (induction ss arbitrary: d)
  case Nil
  then show ?case by simp
next
  case (Cons s ss)
  from Cons.prems(1) obtain q p where s: "s = [PStr q, p]" by (auto simp: pair_shaped_def)
  show ?case
  proof (cases "execute q p d")
    case (Inl e')
    with Cons.prems(2) s have "e' = err" by (simp add: pads_entry_def)
    with Inl show ?thesis by (auto dest: execute_error)
  next
    case (Inr d1)
    with Cons.prems(2) s have "recreate_loop ss d1 = Inl err" by (simp add: pads_entry_def)
    with Cons.IH[of d1] Cons.prems(1) show ?thesis by simp
  qed
qed

lemma drop_all_statements_shape:
  "drop_all_statements e reg dryrun apps d = Inr (ss, d') \<Longrightarrow> \<forall>s\<in>set ss. pair_shaped s"
  using for_each_all[where P = pair_shaped and f = "\<lambda>model. sql_drop model (drop_kwargs dryrun)", OF sql_drop_shape]
  by (simp add: drop_all_statements_def split: sum.splits)

lemma create_all_statements_shape:
  "create_all_statements e reg dryrun apps d = Inr (ss, d') \<Longrightarrow> \<forall>s\<in>set ss. pair_shaped s"
  using for_each_all[where P = pair_shaped and f = "\<lambda>model. sql_create model (drop_kwargs dryrun)", OF sql_create_shape]
  by (simp add: create_all_statements_def split: sum.splits)

lemma recreate_statements_shape:
  "recreate_statements e reg apps d = Inr (ss, d') \<Longrightarrow> \<forall>s\<in>set ss. pair_shaped s"
proof -
  assume "recreate_statements e reg apps d = Inr (ss, d')"
  then obtain s1 d1 s2 where
    a: "drop_all_statements e reg True apps d = Inr (s1, d1)"
    and b: "create_all_statements e reg True apps d1 = Inr (s2, d')"
    and c: "ss = s1 @ s2"
    by (auto simp: recreate_statements_def split: sum.splits prod.splits)
  from drop_all_statements_shape[OF a] create_all_statements_shape[OF b] c
  show ?thesis by auto
qed

lemma drop_all_statements_error:
  "drop_all_statements e reg True apps d = Inl err \<Longrightarrow> err \<noteq> TypeError"
proof
  assume a: "drop_all_statements e reg True apps d = Inl err" and t: "err = TypeError"
  show False
  proof (cases "sort_dependencies e reg apps")
    case (Inl e')
    with a have "e' = err" by (simp add: drop_all_statements_def drop_all_order_def)
    with Inl t sort_dependencies_error show False by blast
  next
    case (Inr ms)
    with a have "for_each (\<lambda>model. sql_drop model (drop_kwargs True)) (rev ms) d = Inl err"
      by (simp add: drop_all_statements_def drop_all_order_def)
    from for_each_error[OF this] show False by (simp add: sql_drop_dryrun)
  qed
qed

lemma create_all_statements_error:
  "create_all_statements e reg True apps d = Inl err \<Longrightarrow> err \<noteq> TypeError"
proof
  assume a: "create_all_statements e reg True apps d = Inl err" and t: "err = TypeError"
  show False
  proof (cases "sort_dependencies e reg apps")
    case (Inl e')
    with a have "e' = err" by (simp add: create_all_statements_def create_all_order_def)
    with Inl t sort_dependencies_error show False by blast
  next
    case (Inr ms)
    with a have "for_each (\<lambda>model. sql_create model (drop_kwargs True)) ms d = Inl err"
      by (simp add: create_all_statements_def create_all_order_def)
    from for_each_error[OF this] sort_dependencies_has_sql[OF Inr]
    show False by (auto dest: sql_create_dryrun_error)
  qed
qed

lemma pair_shaped_length: "pair_shaped s \<Longrightarrow> length s = 2 \<and> \<not> pads_entry s"
  by (auto simp: pair_shaped_def pads_entry_def)

text \<open>
  C10. Every element of the lists returned by \<open>drop_all_statements\<close> and
  \<open>create_all_statements\<close> has two elements, so no element of the list \<open>recreate\<close>
  iterates over satisfies the guard \<open>len(s) == 0\<close>, and \<open>recreate\<close> never raises the
  \<open>TypeError\<close> of the padding branch.
\<close>

theorem statements_are_pairs:
  "(\<forall>ss d'. drop_all_statements e reg dryrun apps d = Inr (ss, d') \<longrightarrow> (\<forall>s\<in>set ss. length s = 2)) \<and>
   (\<forall>ss d'. create_all_statements e reg dryrun apps d = Inr (ss, d') \<longrightarrow> (\<forall>s\<in>set ss. length s = 2)) \<and>
   (\<forall>ss d'. recreate_statements e reg apps d = Inr (ss, d') \<longrightarrow>
      (\<forall>s\<in>set ss. length s = 2 \<and> \<not> pads_entry s)) \<and>
   recreate e reg apps d \<noteq> Inl TypeError"
proof -
  have a: "\<forall>s\<in>set ss. length s = 2"
    if "drop_all_statements e reg dryrun apps d = Inr (ss, d')" for ss d'
    using drop_all_statements_shape[OF that] pair_shaped_length by blast
  have b: "\<forall>s\<in>set ss. length s = 2"
    if "create_all_statements e reg dryrun apps d = Inr (ss, d')" for ss d'
    using create_all_statements_shape[OF that] pair_shaped_length by blast
  have c: "\<forall>s\<in>set ss. length s = 2 \<and> \<not> pads_entry s"
    if "recreate_statements e reg apps d = Inr (ss, d')" for ss d'
    using recreate_statements_shape[OF that] pair_shaped_length by blast
  have r: "recreate e reg apps d \<noteq> Inl TypeError"
  proof
    assume t: "recreate e reg apps d = Inl TypeError"
    show False
    proof (cases "recreate_statements e reg apps d")
      case (Inl err)
      with t have e: "err = TypeError" by (simp add: recreate_def)
      from Inl show False unfolding e
        by (auto simp: recreate_statements_def split: sum.splits prod.splits
            dest: drop_all_statements_error create_all_statements_error)
    next
      case (Inr x)
      obtain ss d1 where x: "x = (ss, d1)" by (cases x)
      with Inr t have "recreate_loop ss d1 = Inl TypeError" by (simp add: recreate_def)
      from recreate_loop_error[OF recreate_statements_shape this] Inr x show False by simp
    qed
  qed
  from a b c r show ?thesis by blast
qed

lemma chain_recreate_statements:
  "map_sum id (map length \<circ> fst) (recreate_statements example_env chain_registry ''all'' example_db)
     = Inr [2, 2, 2, 2, 2, 2]"
  by code_simp

theorem statements_are_pairs_witness:
  "\<exists>ss d'. recreate_statements example_env chain_registry ''all'' example_db = Inr (ss, d') \<and>
     length ss = 6 \<and> \<not> pads_entry (ss ! 0) \<and> length (ss ! 0) = 2"
proof -
  from chain_recreate_statements obtain ss d' where
    s: "recreate_statements example_env chain_registry ''all'' example_db = Inr (ss, d')"
      "map length ss = [2, 2, 2, 2, 2, 2]"
    by (cases "recreate_statements example_env chain_registry ''all'' example_db") auto
  from s(2) have "length (map length ss) = 6" by simp
  then have l: "length ss = 6" by simp
  then have "ss ! 0 \<in> set ss" by simp
  with statements_are_pairs[of example_env chain_registry True "''all''" example_db] s(1)
  have "length (ss ! 0) = 2 \<and> \<not> pads_entry (ss ! 0)" by blast
  with s(1) l show ?thesis by blast
qed

end
